theory Spec2Isabelle
  imports Main "HOL-Library.Sublist"
begin

section \<open>Python string operations used by main.py\<close>

text \<open>
  A Python \<open>str\<close> is modelled as a \<open>string\<close>; a character stands for the code point of
  the same number, so the lines covered are those of code points 0 to 255. Indices and
  offsets are Python integers, hence \<open>int\<close>. The exceptions that the program can meet are
  values of \<open>error\<close>, named as Python names them: an index out of range, a file that does
  not decode, a failed file operation and a failed request.
\<close>

datatype error = IndexError | UnicodeDecodeError | OSError | RequestException

text \<open>A slice bound: negative bounds count from the end, and every bound is clipped.\<close>

definition slice_bound :: "nat \<Rightarrow> int \<Rightarrow> nat" where
  "slice_bound n i = (if i < 0 then nat (max 0 (int n + i)) else min n (nat i))"

text \<open>\<open>text[a:b]\<close>, \<open>text[a:]\<close> and \<open>text[:b]\<close>.\<close>

definition slice :: "string \<Rightarrow> int \<Rightarrow> int \<Rightarrow> string" where
  "slice text a b =
     (let lo = slice_bound (length text) a; hi = slice_bound (length text) b
      in take (hi - lo) (drop lo text))"

definition slice_from :: "string \<Rightarrow> int \<Rightarrow> string" where
  "slice_from text a = drop (slice_bound (length text) a) text"

definition slice_to :: "string \<Rightarrow> int \<Rightarrow> string" where
  "slice_to text b = take (slice_bound (length text) b) text"

text \<open>\<open>text[i]\<close>: a string of one character, or IndexError.\<close>

definition getitem :: "string \<Rightarrow> int \<Rightarrow> error + string" where
  "getitem text i =
     (let n = int (length text); j = (if i < 0 then n + i else i)
      in if 0 \<le> j \<and> j < n then Inr [text ! nat j] else Inl IndexError)"

text \<open>
  \<open>str.isalnum\<close> on the code points below 256: the ASCII digits and letters, and the
  letters and numeric characters of the Latin-1 supplement.
\<close>

definition char_isalnum :: "char \<Rightarrow> bool" where
  "char_isalnum c =
     (let n = (of_char c :: nat) in
      (48 \<le> n \<and> n \<le> 57) \<or> (65 \<le> n \<and> n \<le> 90) \<or> (97 \<le> n \<and> n \<le> 122) \<or>
      n = 170 \<or> n = 178 \<or> n = 179 \<or> n = 181 \<or> n = 185 \<or> n = 186 \<or>
      (188 \<le> n \<and> n \<le> 190) \<or> (192 \<le> n \<and> n \<le> 214) \<or> (216 \<le> n \<and> n \<le> 246) \<or>
      248 \<le> n)"

definition isalnum :: "string \<Rightarrow> bool" where
  "isalnum s = (s \<noteq> [] \<and> list_all char_isalnum s)"

fun startswith :: "string \<Rightarrow> string \<Rightarrow> bool" where
  "startswith text [] = True"
| "startswith [] (p # ps) = False"
| "startswith (c # cs) (p # ps) = (c = p \<and> startswith cs ps)"

definition endswith :: "string \<Rightarrow> string \<Rightarrow> bool" where
  "endswith text suf = startswith (rev text) (rev suf)"

text \<open>
  \<open>text.find(sub, start)\<close>: the lowest index at or after \<open>start\<close> where \<open>sub\<close> occurs,
  or \<open>-1\<close>. The helper scans a suffix of the text, \<open>i\<close> being the index of its head.
\<close>

fun str_find_aux :: "string \<Rightarrow> string \<Rightarrow> nat \<Rightarrow> int" where
  "str_find_aux sub [] i = (if sub = [] then int i else - 1)"
| "str_find_aux sub (c # cs) i =
     (if startswith (c # cs) sub then int i else str_find_aux sub cs (Suc i))"

definition str_find :: "string \<Rightarrow> string \<Rightarrow> int \<Rightarrow> int" where
  "str_find text sub start =
     (let n = length text;
          lo = (if start < 0 then nat (max 0 (int n + start)) else nat start)
      in if n < lo then - 1 else str_find_aux sub (drop lo text) lo)"

text \<open>\<open>text.rfind(sub)\<close>: the highest index where \<open>sub\<close> occurs, or \<open>-1\<close>.\<close>

fun str_rfind_aux :: "string \<Rightarrow> string \<Rightarrow> nat \<Rightarrow> int \<Rightarrow> int" where
  "str_rfind_aux sub [] i found = (if sub = [] then int i else found)"
| "str_rfind_aux sub (c # cs) i found =
     str_rfind_aux sub cs (Suc i) (if startswith (c # cs) sub then int i else found)"

definition str_rfind :: "string \<Rightarrow> string \<Rightarrow> int" where
  "str_rfind text sub = str_rfind_aux sub text 0 (- 1)"

text \<open>
  \<open>text.replace(old, new)\<close>: every occurrence of \<open>old\<close>, found from left to right without
  overlap, becomes \<open>new\<close>; an empty \<open>old\<close> matches before every character and at the end.
\<close>

function str_replace_aux :: "string \<Rightarrow> string \<Rightarrow> string \<Rightarrow> string" where
  "str_replace_aux old new [] = []"
| "str_replace_aux old new (c # cs) =
     (if old \<noteq> [] \<and> startswith (c # cs) old
      then new @ str_replace_aux old new (drop (length old) (c # cs))
      else c # str_replace_aux old new cs)"
  by pat_completeness auto
termination
  by (relation "measure (\<lambda>(old, new, text). length text)") auto

declare str_replace_aux.simps(2) [simp del]

definition str_replace :: "string \<Rightarrow> string \<Rightarrow> string \<Rightarrow> string" where
  "str_replace text old new =
     (if old = [] then new @ concat (map (\<lambda>c. c # new) text)
      else str_replace_aux old new text)"

section \<open>The span extractor\<close>

definition NO_MATCHES_FOUND :: int where
  "NO_MATCHES_FOUND = 9999999"

definition extract_url_from_text :: "string \<Rightarrow> error + (string \<times> int \<times> int) option" where
  "extract_url_from_text text =
     (let start_index = str_find text ''https://cdn.discordapp.com'' 0 in
      if start_index = - 1 then Inr None
      else case getitem text (start_index - 1) of
        Inl e \<Rightarrow> Inl e
      | Inr first_char \<Rightarrow>
          if isalnum first_char then Inr None
          else
            let end_index = str_find text first_char start_index;
                space_index = str_find text '' '' start_index;
                paran_index = str_find text '')'' start_index;
                end_index = (if end_index = - 1 then NO_MATCHES_FOUND else end_index);
                space_index = (if space_index = - 1 then NO_MATCHES_FOUND else space_index);
                paran_index = (if paran_index = - 1 then NO_MATCHES_FOUND else paran_index);
                end_index = min (min end_index space_index) paran_index;
                end_index = (if end_index = NO_MATCHES_FOUND \<or> end_index = - 1
                             then int (length text) - 1 else end_index)
            in Inr (Some (slice text start_index end_index, start_index, end_index)))"

section \<open>The filename deriver\<close>

definition get_file_name_from_url :: "string \<Rightarrow> string option" where
  "get_file_name_from_url url0 =
     (let url = (if endswith url0 ''/'' then slice_to url0 (- 1) else url0);
          url = str_replace url ''https://'' '''';
          index = str_rfind url ''/'' + 1
      in if index = 0 then None
         else
           let file_name = slice_from url index;
               file_name = (if endswith file_name ''?'' then slice_to file_name (- 1)
                            else file_name)
           in Some file_name)"

section \<open>Files, directories, downloads and the console\<close>

text \<open>
  The program reads and writes files, creates a directory, downloads and prints. The model
  passes a \<open>world\<close> along: the files (a text file is the list of lines \<open>readlines\<close>
  gives and \<open>writelines\<close> takes, any other content does not decode as UTF-8), the
  directories, and the trace of the effects so far, oldest first. A download is a function
  from the URL to the response body, \<open>None\<close> when the request fails. A path is the string
  the program builds, and a directory or a file is known by that string; a file operation
  on a path that the world holds with the wrong kind, or does not hold, raises \<open>OSError\<close>.
\<close>

datatype content = Text "string list" | Binary string

datatype event =
    OpenRead string
  | MakeDir string
  | Download string
  | SaveBytes string
  | Print string
  | WriteLines string "string list"

record world =
  fs_files :: "string \<rightharpoonup> content"
  fs_dirs :: "string set"
  trace :: "event list"

text \<open>The outcome of a call: an exception on its way up, or a value, with the world then.\<close>

datatype 'a result = Raise error world | Return 'a world

fun world_of :: "'a result \<Rightarrow> world" where
  "world_of (Raise e w) = w"
| "world_of (Return x w) = w"

definition log :: "event \<Rightarrow> world \<Rightarrow> world" where
  "log ev w = w\<lparr>trace := trace w @ [ev]\<rparr>"

definition isdir :: "world \<Rightarrow> string \<Rightarrow> bool" where
  "isdir w p = (p \<in> fs_dirs w)"

text \<open>
  \<open>text.rstrip(c)\<close> for one character, and \<open>os.path.dirname\<close> and \<open>os.path.basename\<close>
  with the separator \<open>/\<close>.
\<close>

definition rstrip :: "string \<Rightarrow> char \<Rightarrow> string" where
  "rstrip text c = rev (dropWhile (\<lambda>x. x = c) (rev text))"

definition dirname :: "string \<Rightarrow> string" where
  "dirname p =
     (let i = str_rfind p ''/'' + 1;
          head = slice_to p i
      in if head \<noteq> [] \<and> head \<noteq> replicate (length head) CHR ''/''
         then rstrip head CHR ''/'' else head)"

definition basename :: "string \<Rightarrow> string" where
  "basename p = (let i = str_rfind p ''/'' + 1 in slice_from p i)"

text \<open>
  The directory that holds a path does not exist: \<open>os.mkdir\<close> and \<open>open\<close> for writing
  then raise FileNotFoundError. An empty \<open>dirname\<close> is the current directory.
\<close>

definition parent_missing :: "world \<Rightarrow> string \<Rightarrow> bool" where
  "parent_missing w p = (dirname p \<noteq> [] \<and> dirname p \<notin> fs_dirs w)"

text \<open>
  \<open>open(path, 'w')\<close> and \<open>open(path, 'wb')\<close> raise on a directory, on a path whose last
  component is empty (the path is empty or ends in \<open>/\<close>), \<open>.\<close> or \<open>..\<close>, and on a path
  whose directory does not exist.
\<close>

definition open_for_writing_fails :: "world \<Rightarrow> string \<Rightarrow> bool" where
  "open_for_writing_fails w p =
     (p \<in> fs_dirs w \<or> basename p = [] \<or> basename p = ''.'' \<or> basename p = ''..'' \<or>
      parent_missing w p)"

definition mkdir :: "string \<Rightarrow> world \<Rightarrow> unit result" where
  "mkdir p w =
     (let w1 = log (MakeDir p) w in
      if p \<in> fs_dirs w \<or> fs_files w p \<noteq> None \<or> parent_missing w p then Raise OSError w1
      else Return () (w1\<lparr>fs_dirs := insert p (fs_dirs w1)\<rparr>))"

definition readlines :: "string \<Rightarrow> world \<Rightarrow> (string list) result" where
  "readlines file_path w =
     (let w1 = log (OpenRead file_path) w in
      case fs_files w file_path of
        None \<Rightarrow> Raise OSError w1
      | Some (Binary b) \<Rightarrow> Raise UnicodeDecodeError w1
      | Some (Text ls) \<Rightarrow> Return ls w1)"

definition writelines :: "string \<Rightarrow> string list \<Rightarrow> world \<Rightarrow> unit result" where
  "writelines file_path ls w =
     (let w1 = log (WriteLines file_path ls) w in
      if open_for_writing_fails w file_path then Raise OSError w1
      else Return () (w1\<lparr>fs_files := (fs_files w1)(file_path \<mapsto> Text ls)\<rparr>))"

definition print :: "string \<Rightarrow> world \<Rightarrow> world" where
  "print s w = log (Print s) w"

section \<open>The asset fetcher and the line rewriter\<close>

definition save_file_from_url ::
  "(string \<Rightarrow> content option) \<Rightarrow> string \<Rightarrow> string \<Rightarrow> world \<Rightarrow> unit result" where
  "save_file_from_url fetch file_path url w =
     (let w1 = log (Download url) w in
      case fetch url of
        None \<Rightarrow> Raise RequestException w1
      | Some body \<Rightarrow>
          (let w2 = log (SaveBytes file_path) w1 in
           if open_for_writing_fails w2 file_path then Raise OSError w2
           else Return () (w2\<lparr>fs_files := (fs_files w2)(file_path \<mapsto> body)\<rparr>)))"

definition update_file_url :: "string \<Rightarrow> string \<Rightarrow> int \<Rightarrow> int \<Rightarrow> string" where
  "update_file_url text file_name start_index end_index =
     (let new_url = ''/'' @ file_name;
          new_text = slice_to text start_index @ new_url @ slice_from text end_index
      in new_text)"

definition update_url_in_line ::
  "(string \<Rightarrow> content option) \<Rightarrow> string \<Rightarrow> string \<Rightarrow> bool \<Rightarrow> world \<Rightarrow> string result" where
  "update_url_in_line fetch line project_path include_public_dir w =
     (case extract_url_from_text line of
        Inl e \<Rightarrow> Raise e w
      | Inr None \<Rightarrow> Return line w
      | Inr (Some (url, start_index, end_index)) \<Rightarrow>
          (case get_file_name_from_url url of
             None \<Rightarrow> Return line w
           | Some file_name \<Rightarrow>
               (let public_dir = project_path @ ''/public'' in
                (case (if \<not> isdir w public_dir then mkdir public_dir w else Return () w) of
                   Raise e w1 \<Rightarrow> Raise e w1
                 | Return u w1 \<Rightarrow>
                     (let file_path = public_dir @ ''/'' @ file_name in
                      (case save_file_from_url fetch file_path url w1 of
                         Raise e w2 \<Rightarrow> Raise e w2
                       | Return u w2 \<Rightarrow>
                           (let file_name = (if include_public_dir then ''public/'' @ file_name
                                             else file_name);
                                updated_line =
                                  update_file_url line file_name start_index end_index
                            in Return updated_line w2)))))))"

section \<open>The file processor\<close>

text \<open>The list comprehension over the lines of a file, one line after the other.\<close>

fun update_lines ::
  "(string \<Rightarrow> content option) \<Rightarrow> string list \<Rightarrow> string \<Rightarrow> bool \<Rightarrow> world \<Rightarrow> (string list) result" where
  "update_lines fetch [] project_path include_public_dir w = Return [] w"
| "update_lines fetch (line # lines) project_path include_public_dir w =
     (case update_url_in_line fetch line project_path include_public_dir w of
        Raise e w1 \<Rightarrow> Raise e w1
      | Return l w1 \<Rightarrow>
          (case update_lines fetch lines project_path include_public_dir w1 of
             Raise e w2 \<Rightarrow> Raise e w2
           | Return ls w2 \<Rightarrow> Return (l # ls) w2))"

text \<open>\<open>str(n)\<close> for a natural number, and the two format fields of the report.\<close>

fun str :: "nat \<Rightarrow> string" where
  "str n = (if n < 10 then [char_of (48 + n)] else str (n div 10) @ [char_of (48 + n mod 10)])"

definition ljust :: "nat \<Rightarrow> string \<Rightarrow> string" where
  "ljust width s = s @ replicate (width - length s) CHR '' ''"

definition rjust :: "nat \<Rightarrow> string \<Rightarrow> string" where
  "rjust width s = replicate (width - length s) CHR '' '' @ s"

definition report :: "string \<Rightarrow> nat \<Rightarrow> string" where
  "report file_path diff = ljust 80 file_path @ rjust 20 (str diff @ '' Discord CDN URLs'')"

definition update_urls_in_file ::
  "(string \<Rightarrow> content option) \<Rightarrow> string \<Rightarrow> string \<Rightarrow> bool \<Rightarrow> world \<Rightarrow> unit result" where
  "update_urls_in_file fetch file_path project_path include_public_dir w =
     (case readlines file_path w of
        Raise e w1 \<Rightarrow> (if e = UnicodeDecodeError then Return () w1 else Raise e w1)
      | Return lines w1 \<Rightarrow>
          (let old_lines = lines in
           (case update_lines fetch lines project_path include_public_dir w1 of
              Raise e w2 \<Rightarrow> Raise e w2
            | Return lines w2 \<Rightarrow>
                if old_lines = lines then Return () w2
                else
                  (let diff = card (set lines - set old_lines);
                       w3 = print (report file_path diff) w2
                   in writelines file_path lines w3))))"

section \<open>The tree walker\<close>

text \<open>
  \<open>sub in text\<close> on strings, \<open>os.path.join\<close> with the separator \<open>/\<close>, and the walk: the
  triples \<open>(root, dirs, files)\<close> that \<open>os.walk\<close> yields during the run are an input.
\<close>

definition contains :: "string \<Rightarrow> string \<Rightarrow> bool" where
  "contains text sub = (str_find text sub 0 \<noteq> - 1)"

definition path_join :: "string \<Rightarrow> string \<Rightarrow> string" where
  "path_join a b =
     (if startswith b ''/'' then b
      else if a = [] \<or> endswith a ''/'' then a @ b
      else a @ ''/'' @ b)"

definition ignored_dirs :: "string set" where
  "ignored_dirs = {''.git'', ''node_modules'', ''__pycache__''}"

fun update_files ::
  "(string \<Rightarrow> content option) \<Rightarrow> string \<Rightarrow> string \<Rightarrow> string list \<Rightarrow> world \<Rightarrow> unit result" where
  "update_files fetch project_path root [] w = Return () w"
| "update_files fetch project_path root (file # files) w =
     (let file_path = path_join root file in
      if True \<in> (\<lambda>dir. contains file_path dir) ` ignored_dirs
      then update_files fetch project_path root files w
      else
        (case update_urls_in_file fetch file_path project_path (endswith file_path ''.md'') w of
           Raise e w1 \<Rightarrow> Raise e w1
         | Return u w1 \<Rightarrow> update_files fetch project_path root files w1))"

fun update_urls_in_project ::
  "(string \<Rightarrow> content option) \<Rightarrow> (string \<times> string list \<times> string list) list \<Rightarrow> string \<Rightarrow>
   world \<Rightarrow> unit result" where
  "update_urls_in_project fetch [] project_path w = Return () w"
| "update_urls_in_project fetch ((root, dirs, files) # walk) project_path w =
     (case update_files fetch project_path root files w of
        Raise e w1 \<Rightarrow> Raise e w1
      | Return u w1 \<Rightarrow> update_urls_in_project fetch walk project_path w1)"

section \<open>Notions used to state the properties\<close>

text \<open>The fixed origin prefix, and an occurrence of a string in a text at an index.\<close>

definition origin :: string where
  "origin = ''https://cdn.discordapp.com''"

definition occurs_at :: "string \<Rightarrow> string \<Rightarrow> nat \<Rightarrow> bool" where
  "occurs_at sub text k = startswith (drop k text) sub"

text \<open>
  The filename deriver as the specification words it: strip one trailing \<open>/\<close>, strip the
  leading \<open>https://\<close>, take what follows the last \<open>/\<close>, nothing if there is none, and
  strip one trailing \<open>?\<close>. The second definition differs in the second step only: it
  removes every occurrence of \<open>https://\<close>.
\<close>

definition strip_trailing :: "char \<Rightarrow> string \<Rightarrow> string" where
  "strip_trailing c s = (if s \<noteq> [] \<and> last s = c then butlast s else s)"

definition strip_leading :: "string \<Rightarrow> string \<Rightarrow> string" where
  "strip_leading p s = (if prefix p s then drop (length p) s else s)"

definition after_last :: "char \<Rightarrow> string \<Rightarrow> string" where
  "after_last c s = rev (takeWhile (\<lambda>x. x \<noteq> c) (rev s))"

definition derive_filename :: "string \<Rightarrow> string option" where
  "derive_filename url =
     (let u = strip_leading ''https://'' (strip_trailing CHR ''/'' url) in
      if CHR ''/'' \<notin> set u then None
      else Some (strip_trailing CHR ''?'' (after_last CHR ''/'' u)))"

definition derive_filename_all :: "string \<Rightarrow> string option" where
  "derive_filename_all url =
     (let u = str_replace (strip_trailing CHR ''/'' url) ''https://'' '''' in
      if CHR ''/'' \<notin> set u then None
      else Some (strip_trailing CHR ''?'' (after_last CHR ''/'' u)))"

text \<open>The file that an event opens for reading or writes lines to, if it does.\<close>

fun event_file :: "event \<Rightarrow> string option" where
  "event_file (OpenRead p) = Some p"
| "event_file (WriteLines p ls) = Some p"
| "event_file (MakeDir p) = None"
| "event_file (Download u) = None"
| "event_file (SaveBytes p) = None"
| "event_file (Print s) = None"

text \<open>The distinct lines that stand, in the new sequence, at a position where the line changed.\<close>

definition changed_lines :: "string list \<Rightarrow> string list \<Rightarrow> string set" where
  "changed_lines old_lines lines =
     set (map snd (filter (\<lambda>(old, new). old \<noteq> new) (zip old_lines lines)))"


section \<open>Searching a string\<close>

lemma startswith_take: "startswith t p = (take (length p) t = p)"
  by (induction t p rule: startswith.induct) auto

lemma find_aux_cases:
  "(str_find_aux sub xs i = - 1 \<and> (\<forall>j \<le> length xs. \<not> startswith (drop j xs) sub)) \<or>
   (\<exists>k \<le> length xs. str_find_aux sub xs i = int (i + k) \<and> startswith (drop k xs) sub \<and>
      (\<forall>j < k. \<not> startswith (drop j xs) sub))"
proof (induction xs arbitrary: i)
  case Nil
  show ?case by (cases sub) auto
next
  case (Cons c cs)
  show ?case
  proof (cases "startswith (c # cs) sub")
    case True
    then show ?thesis by auto
  next
    case False
    from Cons.IH [of "Suc i"] show ?thesis
    proof
      assume a: "str_find_aux sub cs (Suc i) = - 1 \<and> (\<forall>j \<le> length cs. \<not> startswith (drop j cs) sub)"
      have "\<forall>j \<le> length (c # cs). \<not> startswith (drop j (c # cs)) sub"
      proof (intro allI impI)
        fix j assume "j \<le> length (c # cs)"
        then show "\<not> startswith (drop j (c # cs)) sub"
          using a False by (cases j) auto
      qed
      with a False show ?thesis by simp
    next
      assume "\<exists>k \<le> length cs. str_find_aux sub cs (Suc i) = int (Suc i + k) \<and>
                startswith (drop k cs) sub \<and> (\<forall>j < k. \<not> startswith (drop j cs) sub)"
      then obtain k where k: "k \<le> length cs" "str_find_aux sub cs (Suc i) = int (Suc i + k)"
        "startswith (drop k cs) sub" "\<forall>j < k. \<not> startswith (drop j cs) sub" by blast
      have "\<forall>j < Suc k. \<not> startswith (drop j (c # cs)) sub"
      proof (intro allI impI)
        fix j assume "j < Suc k"
        then show "\<not> startswith (drop j (c # cs)) sub"
          using k(4) False by (cases j) auto
      qed
      with k False have "Suc k \<le> length (c # cs) \<and> str_find_aux sub (c # cs) i = int (i + Suc k) \<and>
          startswith (drop (Suc k) (c # cs)) sub \<and> (\<forall>j < Suc k. \<not> startswith (drop j (c # cs)) sub)"
        by simp
      then show ?thesis by blast
    qed
  qed
qed

lemma find_cases:
  assumes "s \<le> length t"
  shows "(str_find t sub (int s) = - 1 \<and> (\<forall>k. s \<le> k \<and> k \<le> length t \<longrightarrow> \<not> occurs_at sub t k)) \<or>
         (\<exists>k. s \<le> k \<and> k \<le> length t \<and> str_find t sub (int s) = int k \<and> occurs_at sub t k \<and>
              (\<forall>j. s \<le> j \<and> j < k \<longrightarrow> \<not> occurs_at sub t j))"
proof -
  have f: "str_find t sub (int s) = str_find_aux sub (drop s t) s"
    using assms by (simp add: str_find_def)
  from find_aux_cases [of sub "drop s t" s] show ?thesis
  proof
    assume a: "str_find_aux sub (drop s t) s = - 1 \<and>
               (\<forall>j \<le> length (drop s t). \<not> startswith (drop j (drop s t)) sub)"
    have "\<forall>k. s \<le> k \<and> k \<le> length t \<longrightarrow> \<not> occurs_at sub t k"
    proof (intro allI impI)
      fix k assume k: "s \<le> k \<and> k \<le> length t"
      then have "k - s \<le> length (drop s t)" by auto
      with a have "\<not> startswith (drop (k - s) (drop s t)) sub" by blast
      with k show "\<not> occurs_at sub t k" by (simp add: occurs_at_def)
    qed
    with a f show ?thesis by simp
  next
    assume "\<exists>k \<le> length (drop s t). str_find_aux sub (drop s t) s = int (s + k) \<and>
              startswith (drop k (drop s t)) sub \<and> (\<forall>j < k. \<not> startswith (drop j (drop s t)) sub)"
    then obtain k where k: "k \<le> length (drop s t)" "str_find_aux sub (drop s t) s = int (s + k)"
       "startswith (drop k (drop s t)) sub" "\<forall>j < k. \<not> startswith (drop j (drop s t)) sub"
      by blast
    have "\<forall>j. s \<le> j \<and> j < s + k \<longrightarrow> \<not> occurs_at sub t j"
    proof (intro allI impI)
      fix j assume j: "s \<le> j \<and> j < s + k"
      then have "j - s < k" by arith
      with k(4) have "\<not> startswith (drop (j - s) (drop s t)) sub" by blast
      with j show "\<not> occurs_at sub t j" by (simp add: occurs_at_def)
    qed
    moreover have "occurs_at sub t (s + k)" using k(3) by (simp add: occurs_at_def add.commute)
    moreover have "s + k \<le> length t" using k(1) assms by simp
    ultimately show ?thesis using f k(2) by (intro disjI2 exI [of _ "s + k"]) simp
  qed
qed

lemma occurs_at_char: "occurs_at [c] t k = (k < length t \<and> t ! k = c)"
proof (cases "drop k t")
  case Nil
  then show ?thesis by (simp add: occurs_at_def)
next
  case (Cons x xs)
  then have "k < length t" by (metis drop_eq_Nil2 list.distinct(1) not_le)
  moreover from this Cons have "t ! k = x" by (metis hd_drop_conv_nth list.sel(1))
  ultimately show ?thesis using Cons by (auto simp: occurs_at_def)
qed

lemma occurs_at_nth:
  assumes "sub \<noteq> []"
  shows "occurs_at sub t k = (k + length sub \<le> length t \<and> (\<forall>j < length sub. t ! (k + j) = sub ! j))"
proof -
  have n: "0 < length sub" using assms by simp
  have a: "(length t - k = length sub \<or> length sub \<le> length t - k) = (k + length sub \<le> length t)"
    using n by arith
  have "occurs_at sub t k = (take (length sub) (drop k t) = sub)"
    by (simp add: occurs_at_def startswith_take)
  also have "\<dots> = ((length t - k = length sub \<or> length sub \<le> length t - k) \<and>
                      (\<forall>j < length sub. t ! (k + j) = sub ! j))"
    by (auto simp: list_eq_iff_nth_eq min_def)
  finally show ?thesis using a by simp
qed


lemma candidate_cases:
  assumes "k < length t" "t ! k \<noteq> c"
  defines "v \<equiv> (if str_find t [c] (int k) = - 1 then NO_MATCHES_FOUND else str_find t [c] (int k))"
  shows "(v = NO_MATCHES_FOUND \<or> (\<exists>j. v = int j \<and> k < j \<and> j < length t \<and> t ! j = c)) \<and>
         (\<forall>j. k \<le> j \<and> int j < v \<and> j < length t \<longrightarrow> t ! j \<noteq> c)"
proof -
  have le: "k \<le> length t" using assms(1) by simp
  from find_cases [OF le, of "[c]"] show ?thesis
  proof
    assume a: "str_find t [c] (int k) = - 1 \<and>
               (\<forall>j. k \<le> j \<and> j \<le> length t \<longrightarrow> \<not> occurs_at [c] t j)"
    then have "v = NO_MATCHES_FOUND" by (simp add: v_def)
    moreover have "\<forall>j. k \<le> j \<and> int j < v \<and> j < length t \<longrightarrow> t ! j \<noteq> c"
      using a by (auto simp: occurs_at_char)
    ultimately show ?thesis by blast
  next
    assume "\<exists>j. k \<le> j \<and> j \<le> length t \<and> str_find t [c] (int k) = int j \<and> occurs_at [c] t j \<and>
              (\<forall>i. k \<le> i \<and> i < j \<longrightarrow> \<not> occurs_at [c] t i)"
    then obtain j where j: "k \<le> j" "str_find t [c] (int k) = int j" "occurs_at [c] t j"
      "\<forall>i. k \<le> i \<and> i < j \<longrightarrow> \<not> occurs_at [c] t i" by blast
    from j(3) have jc: "j < length t" "t ! j = c" by (simp_all add: occurs_at_char)
    with assms(2) j(1) have kj: "k < j" by (cases "k = j") auto
    have v: "v = int j" using j(2) by (simp add: v_def)
    have "\<forall>i. k \<le> i \<and> int i < v \<and> i < length t \<longrightarrow> t ! i \<noteq> c"
      using j(4) v by (auto simp: occurs_at_char)
    with v kj jc show ?thesis by blast
  qed
qed

lemma origin_nth:
  "length origin = 26" "origin ! 0 = CHR ''h''"
  by (simp_all add: origin_def)

lemma extract_SomeD:
  assumes ex: "extract_url_from_text t = Inr (Some (url, s, e))"
  shows "\<exists>k m fc. s = int k \<and> e = int m \<and> occurs_at origin t k \<and>
           (\<forall>j < k. \<not> occurs_at origin t j) \<and>
           fc = (if k = 0 then t ! (length t - 1) else t ! (k - 1)) \<and> \<not> char_isalnum fc \<and>
           k < m \<and> m < length t \<and> url = take (m - k) (drop k t) \<and>
           (m = length t - 1 \<or>
              ((t ! m = fc \<or> t ! m = CHR '' '' \<or> t ! m = CHR '')'') \<and>
               (\<forall>j. k \<le> j \<and> j < m \<longrightarrow> t ! j \<noteq> fc \<and> t ! j \<noteq> CHR '' '' \<and> t ! j \<noteq> CHR '')'')))"
proof -
  have f0: "str_find t ''https://cdn.discordapp.com'' 0 \<noteq> - 1"
  proof
    assume "str_find t ''https://cdn.discordapp.com'' 0 = - 1"
    then have "extract_url_from_text t = Inr None" by (simp add: extract_url_from_text_def)
    with ex show False by simp
  qed
  from find_cases [of 0 t origin] f0
  obtain k where k: "str_find t origin 0 = int k" "occurs_at origin t k"
    "\<forall>j < k. \<not> occurs_at origin t j"
    by (auto simp: origin_def)
  from k(2) have occ: "k + 26 \<le> length t" "\<forall>j < 26. t ! (k + j) = origin ! j"
    using occurs_at_nth [of origin t k] by (simp_all add: origin_def)
  have "t ! (k + 0) = origin ! 0" using occ(2) [rule_format, of 0] by simp
  then have tk: "t ! k = CHR ''h''" using origin_nth(2) by simp
  have klen: "k < length t" using occ(1) by simp
  define fc where "fc = (if k = 0 then t ! (length t - 1) else t ! (k - 1))"
  have gi: "getitem t (int k - 1) = Inr [fc]"
    using klen by (auto simp: getitem_def fc_def Let_def nat_diff_distrib')
  have nal: "\<not> char_isalnum fc"
  proof
    assume "char_isalnum fc"
    then have "extract_url_from_text t = Inr None"
      using k(1) gi f0 by (simp add: extract_url_from_text_def origin_def isalnum_def)
    with ex show False by simp
  qed
  have hal: "char_isalnum CHR ''h''" by (simp add: char_isalnum_def)
  have ne1: "t ! k \<noteq> fc" using tk nal hal by auto
  have ne2: "t ! k \<noteq> CHR '' ''" using tk by simp
  have ne3: "t ! k \<noteq> CHR '')''" using tk by simp
  define v1 where "v1 = (if str_find t [fc] (int k) = - 1 then NO_MATCHES_FOUND else str_find t [fc] (int k))"
  define v2 where "v2 = (if str_find t '' '' (int k) = - 1 then NO_MATCHES_FOUND else str_find t '' '' (int k))"
  define v3 where "v3 = (if str_find t '')'' (int k) = - 1 then NO_MATCHES_FOUND else str_find t '')'' (int k))"
  define m0 where "m0 = min (min v1 v2) v3"
  define e0 where "e0 = (if m0 = NO_MATCHES_FOUND \<or> m0 = - 1 then int (length t) - 1 else m0)"
  have "extract_url_from_text t = Inr (Some (slice t (int k) e0, int k, e0))"
    unfolding extract_url_from_text_def Let_def e0_def m0_def v1_def v2_def v3_def
      k(1) [unfolded origin_def] gi
    using nal by (simp add: isalnum_def split del: if_split cong: if_cong)
  with ex have res: "url = slice t (int k) e0 \<and> s = int k \<and> e = e0" by auto
  note c1 = candidate_cases [OF klen ne1, folded v1_def]
  note c2 = candidate_cases [OF klen ne2, folded v2_def]
  note c3 = candidate_cases [OF klen ne3, folded v3_def]
  have nn: "0 \<le> v1" "0 \<le> v2" "0 \<le> v3"
    using c1 c2 c3 by (auto simp: NO_MATCHES_FOUND_def)
  have m0_in: "m0 = v1 \<or> m0 = v2 \<or> m0 = v3" by (auto simp: m0_def min_def)
  have m0_le: "m0 \<le> v1" "m0 \<le> v2" "m0 \<le> v3" by (auto simp: m0_def)
  have m0_nn: "0 \<le> m0" using nn m0_in by auto
  have shape: "(e0 = int (length t) - 1) \<or>
      (\<exists>m. e0 = int m \<and> k < m \<and> m < length t \<and>
         (t ! m = fc \<or> t ! m = CHR '' '' \<or> t ! m = CHR '')'') \<and>
         (\<forall>j. k \<le> j \<and> j < m \<longrightarrow> t ! j \<noteq> fc \<and> t ! j \<noteq> CHR '' '' \<and> t ! j \<noteq> CHR '')''))"
  proof (cases "m0 = NO_MATCHES_FOUND")
    case True
    then show ?thesis by (simp add: e0_def)
  next
    case False
    then have e0: "e0 = m0" using m0_nn by (auto simp: e0_def)
    have pick: "\<And>v c. m0 = v \<Longrightarrow>
        v = NO_MATCHES_FOUND \<or> (\<exists>j. v = int j \<and> k < j \<and> j < length t \<and> t ! j = c) \<Longrightarrow>
        \<exists>j. m0 = int j \<and> k < j \<and> j < length t \<and> t ! j = c"
      using False by blast
    from m0_in have "\<exists>m. m0 = int m \<and> k < m \<and> m < length t \<and>
        (t ! m = fc \<or> t ! m = CHR '' '' \<or> t ! m = CHR '')'')"
    proof (elim disjE)
      assume "m0 = v1"
      from pick [OF this conjunct1 [OF c1]] show ?thesis by blast
    next
      assume "m0 = v2"
      from pick [OF this conjunct1 [OF c2]] show ?thesis by blast
    next
      assume "m0 = v3"
      from pick [OF this conjunct1 [OF c3]] show ?thesis by blast
    qed
    then obtain m where m: "m0 = int m" "k < m" "m < length t"
      "t ! m = fc \<or> t ! m = CHR '' '' \<or> t ! m = CHR '')''"
      by blast
    have "\<forall>j. k \<le> j \<and> j < m \<longrightarrow> t ! j \<noteq> fc \<and> t ! j \<noteq> CHR '' '' \<and> t ! j \<noteq> CHR '')''"
    proof (intro allI impI)
      fix j assume j: "k \<le> j \<and> j < m"
      then have "int j < v1" "int j < v2" "int j < v3" "j < length t"
        using m0_le m(1,3) by auto
      with j c1 c2 c3 show "t ! j \<noteq> fc \<and> t ! j \<noteq> CHR '' '' \<and> t ! j \<noteq> CHR '')''" by blast
    qed
    with m e0 show ?thesis by blast
  qed
  from shape obtain m where m: "e0 = int m" "k < m" "m < length t"
    "m = length t - 1 \<or>
      ((t ! m = fc \<or> t ! m = CHR '' '' \<or> t ! m = CHR '')'') \<and>
       (\<forall>j. k \<le> j \<and> j < m \<longrightarrow> t ! j \<noteq> fc \<and> t ! j \<noteq> CHR '' '' \<and> t ! j \<noteq> CHR '')''))"
  proof
    assume a: "e0 = int (length t) - 1"
    have "e0 = int (length t - 1)" "k < length t - 1" "length t - 1 < length t"
      using a occ(1) by auto
    then show ?thesis using that by blast
  next
    assume "\<exists>m. e0 = int m \<and> k < m \<and> m < length t \<and>
         (t ! m = fc \<or> t ! m = CHR '' '' \<or> t ! m = CHR '')'') \<and>
         (\<forall>j. k \<le> j \<and> j < m \<longrightarrow> t ! j \<noteq> fc \<and> t ! j \<noteq> CHR '' '' \<and> t ! j \<noteq> CHR '')'')"
    then show ?thesis using that by blast
  qed
  have "url = take (m - k) (drop k t)"
    using res m(1,2,3) by (simp add: slice_def slice_bound_def Let_def)
  with res m k(2,3) nal fc_def show ?thesis by blast
qed

text \<open>The index read by the extractor is always in range: no IndexError escapes.\<close>

lemma extract_no_error: "extract_url_from_text t \<noteq> Inl err"
proof (cases "str_find t ''https://cdn.discordapp.com'' 0 = - 1")
  case True
  then show ?thesis by (simp add: extract_url_from_text_def)
next
  case False
  with find_cases [of 0 t origin]
  obtain k where k: "str_find t origin 0 = int k" "occurs_at origin t k"
    by (auto simp: origin_def)
  from k(2) have "k + 26 \<le> length t"
    using occurs_at_nth [of origin t k] by (simp add: origin_def)
  then have "\<exists>c. getitem t (int k - 1) = Inr c"
    by (auto simp: getitem_def Let_def)
  then show ?thesis
    using k(1) by (auto simp: extract_url_from_text_def Let_def origin_def split: if_splits)
qed

section \<open>The span of an extracted URL\<close>

text \<open>
  Claim C8. Whenever the span extractor returns a span \<open>(url, start, end)\<close> for a line,
  \<open>0 \<le> start < end \<le> length line\<close>, and if \<open>start > 0\<close> the character just before
  \<open>start\<close> is not alphanumeric.
\<close>

theorem extract_span_bounds:
  assumes "extract_url_from_text line = Inr (Some (url, start, end))"
  shows "0 \<le> start \<and> start < end \<and> end \<le> int (length line) \<and>
         (0 < start \<longrightarrow> \<not> isalnum [line ! nat (start - 1)])"
proof -
  from extract_SomeD [OF assms] obtain k m fc where
    f: "start = int k" "end = int m" "k < m" "m < length line"
       "fc = (if k = 0 then line ! (length line - 1) else line ! (k - 1))" "\<not> char_isalnum fc"
    by blast
  have "0 < start \<longrightarrow> \<not> isalnum [line ! nat (start - 1)]"
  proof
    assume "0 < start"
    then have "0 < k" using f(1) by simp
    then have "fc = line ! nat (start - 1)" using f(1,5) by (simp add: nat_diff_distrib')
    with f(6) show "\<not> isalnum [line ! nat (start - 1)]" by (simp add: isalnum_def)
  qed
  with f(1-4) show ?thesis by simp
qed

theorem extract_span_bounds_witness:
  "extract_url_from_text ''see (https://cdn.discordapp.com/x/logo.png) here'' =
     Inr (Some (''https://cdn.discordapp.com/x/logo.png'', 5, 42)) \<and>
   (0::int) \<le> 5 \<and> (5::int) < 42 \<and>
   42 \<le> int (length ''see (https://cdn.discordapp.com/x/logo.png) here'') \<and>
   \<not> isalnum [''see (https://cdn.discordapp.com/x/logo.png) here'' ! nat (5 - 1)]"
proof -
  have h: "extract_url_from_text ''see (https://cdn.discordapp.com/x/logo.png) here'' =
     Inr (Some (''https://cdn.discordapp.com/x/logo.png'', 5, 42))"
    by code_simp
  show ?thesis using h extract_span_bounds [OF h] by simp
qed

section \<open>The filename deriver and the reference definition\<close>

lemma endswith_char: "endswith s [c] = (s \<noteq> [] \<and> last s = c)"
  by (cases s rule: rev_cases) (auto simp: endswith_def)

lemma slice_to_minus1: "slice_to s (- 1) = butlast s"
proof -
  have "nat (max 0 (int (length s) - 1)) = length s - 1" by arith
  then show ?thesis by (simp add: slice_to_def slice_bound_def butlast_conv_take)
qed

lemma strip_trailing_code:
  "(if endswith s [c] then slice_to s (- 1) else s) = strip_trailing c s"
  by (simp add: endswith_char slice_to_minus1 strip_trailing_def)

lemma rfind_aux_absent: "c \<notin> set xs \<Longrightarrow> str_rfind_aux [c] xs i found = found"
  by (induction xs arbitrary: i found) auto

lemma rfind_aux_last:
  "c \<notin> set ys \<Longrightarrow> str_rfind_aux [c] (xs @ c # ys) i found = int (i + length xs)"
  by (induction xs arbitrary: i found) (auto simp: rfind_aux_absent)

lemma after_last_split:
  assumes "c \<notin> set ys"
  shows "after_last c (xs @ c # ys) = ys"
proof -
  have "takeWhile (\<lambda>x. x \<noteq> c) (rev ys @ c # rev xs) = takeWhile (\<lambda>x. x \<noteq> c) (rev ys)"
    by (simp add: takeWhile_tail)
  also have "\<dots> = rev ys" using assms by (auto simp: takeWhile_eq_all_conv)
  finally show ?thesis by (simp add: after_last_def)
qed

lemma slice_bound_nat: "slice_bound n (int k) = min n k"
  by (simp add: slice_bound_def)

lemma rfind_slice:
  "str_rfind u [c] + 1 = 0 \<longleftrightarrow> c \<notin> set u"
  "c \<in> set u \<Longrightarrow> slice_from u (str_rfind u [c] + 1) = after_last c u"
proof -
  show "str_rfind u [c] + 1 = 0 \<longleftrightarrow> c \<notin> set u"
  proof (cases "c \<in> set u")
    case True
    then obtain xs ys where "u = xs @ c # ys" "c \<notin> set ys" by (meson split_list_last)
    then show ?thesis using True by (simp add: str_rfind_def rfind_aux_last)
  next
    case False
    then show ?thesis by (simp add: str_rfind_def rfind_aux_absent)
  qed
next
  assume "c \<in> set u"
  then obtain xs ys where u: "u = xs @ c # ys" "c \<notin> set ys" by (meson split_list_last)
  then have "str_rfind u [c] + 1 = int (Suc (length xs))"
    by (simp add: str_rfind_def rfind_aux_last)
  moreover have "slice_from u (int (Suc (length xs))) = ys"
    unfolding slice_from_def slice_bound_nat using u(1) by simp
  ultimately show "slice_from u (str_rfind u [c] + 1) = after_last c u"
    using u by (simp add: after_last_split add.commute)
qed

lemma get_file_name_eq: "get_file_name_from_url url = derive_filename_all url"
proof -
  define u where "u = str_replace (strip_trailing CHR ''/'' url) ''https://'' ''''"
  show ?thesis
  proof (cases "CHR ''/'' \<in> set u")
    case True
    then show ?thesis
      using rfind_slice [where u = u and c = "CHR ''/''"]
      unfolding get_file_name_from_url_def derive_filename_all_def Let_def
        strip_trailing_code u_def [symmetric]
      by simp
  next
    case False
    then show ?thesis
      using rfind_slice(1) [where u = u and c = "CHR ''/''"]
      unfolding get_file_name_from_url_def derive_filename_all_def Let_def
        strip_trailing_code u_def [symmetric]
      by simp
  qed
qed

lemma after_last_no_sep: "c \<notin> set (after_last c s)"
proof -
  have "\<forall>x \<in> set (takeWhile (\<lambda>x. x \<noteq> c) (rev s)). x \<noteq> c"
    by (auto dest: set_takeWhileD)
  then show ?thesis by (auto simp: after_last_def)
qed

lemma strip_trailing_subset: "set (strip_trailing c s) \<subseteq> set s"
  by (auto simp: strip_trailing_def dest: in_set_butlastD)

lemma file_name_no_slash:
  "get_file_name_from_url url = Some fn \<Longrightarrow> CHR ''/'' \<notin> set fn"
  using after_last_no_sep strip_trailing_subset
  by (fastforce simp: get_file_name_eq derive_filename_all_def Let_def split: if_splits)

lemma startswith_prefix: "startswith t p = prefix p t"
  by (induction t p rule: startswith.induct) auto

lemma replace_aux_absent:
  "(\<forall>k. \<not> occurs_at old xs k) \<Longrightarrow> str_replace_aux old new xs = xs"
proof (induction xs)
  case Nil
  show ?case by simp
next
  case (Cons c cs)
  have "\<not> occurs_at old (c # cs) 0" using Cons.prems by blast
  then have n0: "\<not> startswith (c # cs) old" by (simp add: occurs_at_def)
  have "\<forall>k. \<not> occurs_at old cs k"
  proof
    fix k
    have "\<not> occurs_at old (c # cs) (Suc k)" using Cons.prems by blast
    then show "\<not> occurs_at old cs k" by (simp add: occurs_at_def)
  qed
  with Cons.IH n0 show ?case by (simp add: str_replace_aux.simps(2))
qed

lemma replace_leading:
  assumes "old \<noteq> []" "\<forall>k. 0 < k \<longrightarrow> \<not> occurs_at old u k"
  shows "str_replace u old [] = strip_leading old u"
proof (cases "startswith u old")
  case True
  then obtain c cs where u: "u = c # cs" using assms(1) by (cases u; cases old) auto
  have "\<forall>k. \<not> occurs_at old (drop (length old) u) k"
  proof
    fix k
    have "0 < k + length old" using assms(1) by simp
    then have "\<not> occurs_at old u (k + length old)"
      using assms(2) [rule_format, of "k + length old"] by simp
    then show "\<not> occurs_at old (drop (length old) u) k" by (simp add: occurs_at_def)
  qed
  then have "str_replace_aux old [] (drop (length old) u) = drop (length old) u"
    by (rule replace_aux_absent)
  moreover have "prefix old u" using True by (simp add: startswith_prefix)
  moreover have "str_replace u old [] = str_replace_aux old [] (drop (length old) u)"
    using True assms(1) unfolding u str_replace_def
    by (subst str_replace_aux.simps(2)) simp
  ultimately show ?thesis by (simp add: strip_leading_def)
next
  case False
  have "\<forall>k. \<not> occurs_at old u k"
  proof
    fix k
    show "\<not> occurs_at old u k"
    proof (cases k)
      case 0
      then show ?thesis using False by (simp add: occurs_at_def)
    next
      case (Suc j)
      then show ?thesis using assms(2) [rule_format, of k] by simp
    qed
  qed
  then have "str_replace_aux old [] u = u" by (rule replace_aux_absent)
  moreover have "\<not> prefix old u" using False by (simp add: startswith_prefix)
  ultimately show ?thesis using assms(1) by (simp add: str_replace_def strip_leading_def)
qed

lemma occurs_at_strip_trailing:
  "occurs_at sub (strip_trailing c s) k \<Longrightarrow> sub \<noteq> [] \<Longrightarrow> occurs_at sub s k"
proof -
  assume a: "occurs_at sub (strip_trailing c s) k" "sub \<noteq> []"
  show ?thesis
  proof (cases "s \<noteq> [] \<and> last s = c")
    case True
    then have s: "s = butlast s @ [c]" by (metis append_butlast_last_id)
    from a True have o: "occurs_at sub (butlast s) k" by (simp add: strip_trailing_def)
    then have "k + length sub \<le> length (butlast s)"
      "\<forall>j < length sub. butlast s ! (k + j) = sub ! j"
      using occurs_at_nth [OF a(2)] by blast+
    then have "k + length sub \<le> length s \<and> (\<forall>j < length sub. s ! (k + j) = sub ! j)"
      by (auto simp: nth_butlast)
    then show ?thesis using occurs_at_nth [OF a(2)] by blast
  next
    case False
    with a show ?thesis by (auto simp: strip_trailing_def)
  qed
qed

lemma occurs_at_beyond: "sub \<noteq> [] \<Longrightarrow> length t \<le> k \<Longrightarrow> \<not> occurs_at sub t k"
  by (cases sub) (simp_all add: occurs_at_def)

lemma find_absent:
  assumes "str_find t sub (int s) = - 1" "sub \<noteq> []" "s \<le> k"
  shows "\<not> occurs_at sub t k"
proof (cases "k \<le> length t")
  case True
  then have "s \<le> length t" using assms(3) by simp
  from find_cases [OF this, of sub] assms(1,3) True show ?thesis by auto
next
  case False
  then show ?thesis using occurs_at_beyond [OF assms(2)] by simp
qed

lemma find_absentI:
  assumes "\<And>k. s \<le> k \<Longrightarrow> \<not> occurs_at sub t k"
  shows "str_find t sub (int s) = - 1"
proof (cases "s \<le> length t")
  case True
  from find_cases [OF this, of sub] assms show ?thesis by blast
next
  case False
  then show ?thesis by (simp add: str_find_def)
qed

section \<open>Claims about the filename deriver\<close>

text \<open>
  Claim C6, as stated, fails: the code removes every occurrence of \<open>https://\<close>, the
  reference definition only a leading one.
\<close>

theorem deriver_reference_counterexample:
  "get_file_name_from_url ''https://cdn.discordapp.com/ahttps://b.png'' \<noteq>
   derive_filename ''https://cdn.discordapp.com/ahttps://b.png''"
  by code_simp

text \<open>
  Claim C6, amended. For every url the filename deriver equals the reference definition
  whose second step removes every occurrence of \<open>https://\<close>; and for a url in which
  \<open>https://\<close> occurs nowhere but at the start, it equals the five-step reference
  definition itself.
\<close>

theorem deriver_reference:
  "get_file_name_from_url url = derive_filename_all url \<and>
   (str_find url ''https://'' 1 = - 1 \<longrightarrow>
      get_file_name_from_url url = derive_filename url)"
proof (intro conjI impI)
  show "get_file_name_from_url url = derive_filename_all url" by (rule get_file_name_eq)
next
  assume "str_find url ''https://'' 1 = - 1"
  then have f: "str_find url ''https://'' (int 1) = - 1" by simp
  have a: "\<forall>k. 0 < k \<longrightarrow> \<not> occurs_at ''https://'' url k"
  proof (intro allI impI)
    fix k :: nat assume "0 < k"
    then have "1 \<le> k" by simp
    from find_absent [OF f _ this] show "\<not> occurs_at ''https://'' url k" by simp
  qed
  have "\<forall>k. 0 < k \<longrightarrow> \<not> occurs_at ''https://'' (strip_trailing CHR ''/'' url) k"
    using a occurs_at_strip_trailing by blast
  then have "str_replace (strip_trailing CHR ''/'' url) ''https://'' [] =
             strip_leading ''https://'' (strip_trailing CHR ''/'' url)"
    by (intro replace_leading) simp_all
  then show "get_file_name_from_url url = derive_filename url"
    by (simp add: get_file_name_eq derive_filename_all_def derive_filename_def)
qed

theorem deriver_reference_witness:
  "str_find ''https://cdn.discordapp.com/base/img.png?'' ''https://'' 1 = - 1 \<and>
   get_file_name_from_url ''https://cdn.discordapp.com/base/img.png?'' = Some ''img.png'' \<and>
   derive_filename ''https://cdn.discordapp.com/base/img.png?'' = Some ''img.png''"
proof -
  have h: "str_find ''https://cdn.discordapp.com/base/img.png?'' ''https://'' 1 = - 1"
    by code_simp
  have g: "get_file_name_from_url ''https://cdn.discordapp.com/base/img.png?'' = Some ''img.png''"
    by code_simp
  from deriver_reference [of "''https://cdn.discordapp.com/base/img.png?''"] h
  have "get_file_name_from_url ''https://cdn.discordapp.com/base/img.png?'' =
        derive_filename ''https://cdn.discordapp.com/base/img.png?''" by blast
  with h g show ?thesis by simp
qed

section \<open>Claims about the first character and the extracted text\<close>

text \<open>
  Claim C1 at a line that the code can receive, the last line of a file that does not end
  in a newline: the origin prefix is at offset 0, and the extractor returns no span. The
  code reads \<open>text[start_index - 1]\<close>, which at \<open>start_index = 0\<close> is the last character
  of the line, here the alphanumeric \<open>g\<close>.
\<close>

theorem extract_at_offset_0_rejected:
  "str_find ''https://cdn.discordapp.com/a.png'' ''https://cdn.discordapp.com'' 0 = 0 \<and>
   getitem ''https://cdn.discordapp.com/a.png'' (0 - 1) = Inr ''g'' \<and>
   extract_url_from_text ''https://cdn.discordapp.com/a.png'' = Inr None"
  by code_simp

text \<open>
  Claim C3 at the line \<open>Link:https://cdn.discordapp.com/a.png\<close>: the delimiter looked
  for is the colon before the URL, found again inside the prefix, so the extracted text is
  \<open>https\<close>, which does not begin with the origin prefix. At a last line that ends with the
  prefix, the end \<open>len(text) - 1\<close> cuts the last character of the prefix.
\<close>

theorem extract_url_not_qualifying:
  "extract_url_from_text ''Link:https://cdn.discordapp.com/a.png'' =
     Inr (Some (''https'', 5, 10)) \<and>
   \<not> startswith ''https'' origin \<and>
   extract_url_from_text ''see https://cdn.discordapp.com'' =
     Inr (Some (''https://cdn.discordapp.co'', 4, 29)) \<and>
   \<not> startswith ''https://cdn.discordapp.co'' origin"
  by code_simp

section \<open>The line rewriter and the destination of an asset\<close>

lemma update_url_in_line_skip:
  "extract_url_from_text line = Inr None \<Longrightarrow>
   update_url_in_line fetch line project_path include_public_dir w = Return line w"
  "extract_url_from_text line = Inr (Some (url, s, e)) \<Longrightarrow> get_file_name_from_url url = None \<Longrightarrow>
   update_url_in_line fetch line project_path include_public_dir w = Return line w"
  by (simp_all add: update_url_in_line_def)

lemma update_url_in_line_rewrite:
  assumes "extract_url_from_text line = Inr (Some (url, s, e))"
    and "get_file_name_from_url url = Some fn"
  shows "update_url_in_line fetch line project_path include_public_dir w =
     (case (if \<not> isdir w (project_path @ ''/public'') then mkdir (project_path @ ''/public'') w
            else Return () w) of
        Raise err w1 \<Rightarrow> Raise err w1
      | Return u w1 \<Rightarrow>
          (case save_file_from_url fetch ((project_path @ ''/public'') @ ''/'' @ fn) url w1 of
             Raise err w2 \<Rightarrow> Raise err w2
           | Return u w2 \<Rightarrow>
               Return (update_file_url line (if include_public_dir then ''public/'' @ fn else fn) s e)
                 w2))"
  unfolding update_url_in_line_def Let_def using assms by (simp split del: if_split)

lemma update_url_in_line_cases:
  obtains "extract_url_from_text line = Inr None"
  | url s e where "extract_url_from_text line = Inr (Some (url, s, e))"
      "get_file_name_from_url url = None"
  | url s e fn where "extract_url_from_text line = Inr (Some (url, s, e))"
      "get_file_name_from_url url = Some fn"
proof (cases "extract_url_from_text line")
  case (Inl err)
  then show ?thesis using extract_no_error by blast
next
  case (Inr r)
  show ?thesis
  proof (cases r)
    case None
    with Inr that(1) show ?thesis by simp
  next
    case (Some x)
    obtain url s e where x: "x = (url, s, e)" by (cases x) auto
    show ?thesis
    proof (cases "get_file_name_from_url url")
      case None
      with Inr Some x that(2) show ?thesis by simp
    next
      case (Some fn)
      with Inr \<open>r = Some x\<close> x that(3) show ?thesis by simp
    qed
  qed
qed

lemma mkdir_trace:
  "trace (world_of (mkdir p w)) = trace w @ [MakeDir p]"
  by (simp add: mkdir_def log_def Let_def)

lemma save_trace:
  "trace (world_of (save_file_from_url fetch p url w)) = trace w @ [Download url] \<or>
   trace (world_of (save_file_from_url fetch p url w)) = trace w @ [Download url, SaveBytes p]"
  by (simp add: save_file_from_url_def log_def Let_def split: option.splits)


lemma rewrite_trace:
  assumes "extract_url_from_text line = Inr (Some (url, s, e))"
    and "get_file_name_from_url url = Some fn"
  shows "\<exists>evs. trace (world_of (update_url_in_line fetch line project_path inc w)) = trace w @ evs \<and>
           set evs \<subseteq> {MakeDir (project_path @ ''/public''), Download url,
                        SaveBytes ((project_path @ ''/public'') @ ''/'' @ fn)}"
proof -
  define pd where "pd = project_path @ ''/public''"
  define r1 where "r1 = (if \<not> isdir w pd then mkdir pd w else Return () w)"
  have t1: "trace (world_of r1) = trace w \<or> trace (world_of r1) = trace w @ [MakeDir pd]"
    by (simp add: r1_def mkdir_trace)
  have u: "update_url_in_line fetch line project_path inc w =
     (case r1 of
        Raise err w1 \<Rightarrow> Raise err w1
      | Return u w1 \<Rightarrow>
          (case save_file_from_url fetch (pd @ ''/'' @ fn) url w1 of
             Raise err w2 \<Rightarrow> Raise err w2
           | Return u w2 \<Rightarrow>
               Return (update_file_url line (if inc then ''public/'' @ fn else fn) s e) w2))"
    unfolding r1_def pd_def by (rule update_url_in_line_rewrite [OF assms])
  show ?thesis
  proof (cases r1)
    case (Raise err w1)
    then have "trace (world_of (update_url_in_line fetch line project_path inc w)) = trace (world_of r1)"
      using u by simp
    with t1 show ?thesis unfolding pd_def by auto
  next
    case (Return x w1)
    define r2 where "r2 = save_file_from_url fetch (pd @ ''/'' @ fn) url w1"
    have w1: "trace w1 = trace (world_of r1)" using Return by simp
    have "trace (world_of (update_url_in_line fetch line project_path inc w)) = trace (world_of r2)"
      using u Return by (cases r2) (simp_all add: r2_def)
    moreover have "trace (world_of r2) = trace w1 @ [Download url] \<or>
        trace (world_of r2) = trace w1 @ [Download url, SaveBytes (pd @ ''/'' @ fn)]"
      unfolding r2_def by (rule save_trace)
    ultimately show ?thesis using t1 w1 unfolding pd_def by auto
  qed
qed

section \<open>Claims about the rewritten line and the saved asset\<close>

text \<open>
  Claim C9. A filename that the filename deriver returns contains no \<open>/\<close>; and every file
  that the processing of a line saves has the path of the asset directory, \<open>/\<close>, and a
  name without \<open>/\<close>: it lies directly inside the asset directory.
\<close>

theorem asset_saved_inside_public:
  "(get_file_name_from_url url = Some fn \<longrightarrow> CHR ''/'' \<notin> set fn) \<and>
   (SaveBytes p \<in> set (trace (world_of (update_url_in_line fetch line project_path inc w))) \<longrightarrow>
      SaveBytes p \<in> set (trace w) \<or>
      (\<exists>name. p = project_path @ ''/public/'' @ name \<and> CHR ''/'' \<notin> set name))"
proof (intro conjI impI)
  assume "get_file_name_from_url url = Some fn"
  then show "CHR ''/'' \<notin> set fn" by (rule file_name_no_slash)
next
  assume a: "SaveBytes p \<in> set (trace (world_of (update_url_in_line fetch line project_path inc w)))"
  show "SaveBytes p \<in> set (trace w) \<or>
      (\<exists>name. p = project_path @ ''/public/'' @ name \<and> CHR ''/'' \<notin> set name)"
  proof (cases line rule: update_url_in_line_cases)
    case 1
    with a show ?thesis by (simp add: update_url_in_line_skip)
  next
    case (2 u s e)
    with a show ?thesis by (simp add: update_url_in_line_skip)
  next
    case (3 u s e name)
    from rewrite_trace [OF 3, of fetch project_path inc w] obtain evs where
      evs: "trace (world_of (update_url_in_line fetch line project_path inc w)) = trace w @ evs"
        "set evs \<subseteq> {MakeDir (project_path @ ''/public''), Download u,
                        SaveBytes ((project_path @ ''/public'') @ ''/'' @ name)}"
      by blast
    have n: "CHR ''/'' \<notin> set name" using 3(2) by (rule file_name_no_slash)
    from a evs have "SaveBytes p \<in> set (trace w) \<or> p = project_path @ ''/public/'' @ name"
      by auto
    with n show ?thesis by blast
  qed
qed

theorem asset_saved_inside_public_witness:
  "get_file_name_from_url ''https://cdn.discordapp.com/x/logo.png'' = Some ''logo.png'' \<and>
   CHR ''/'' \<notin> set ''logo.png'' \<and>
   SaveBytes ''proj/public/logo.png'' \<in> set (trace (world_of
     (update_url_in_line (\<lambda>u. Some (Binary u)) ''(https://cdn.discordapp.com/x/logo.png)'' ''proj''
        False \<lparr>fs_files = Map.empty, fs_dirs = {''proj''}, trace = []\<rparr>))) \<and>
   (\<exists>name. ''proj/public/logo.png'' = ''proj'' @ ''/public/'' @ name \<and> CHR ''/'' \<notin> set name)"
proof -
  have h1: "get_file_name_from_url ''https://cdn.discordapp.com/x/logo.png'' = Some ''logo.png''"
    by code_simp
  have h2: "SaveBytes ''proj/public/logo.png'' \<in> set (trace (world_of
     (update_url_in_line (\<lambda>u. Some (Binary u)) ''(https://cdn.discordapp.com/x/logo.png)'' ''proj''
        False \<lparr>fs_files = Map.empty, fs_dirs = {''proj''}, trace = []\<rparr>)))"
    by code_simp
  from asset_saved_inside_public [of "''https://cdn.discordapp.com/x/logo.png''" "''logo.png''"
      "''proj/public/logo.png''" "\<lambda>u. Some (Binary u)" "''(https://cdn.discordapp.com/x/logo.png)''"
      "''proj''" False "\<lparr>fs_files = Map.empty, fs_dirs = {''proj''}, trace = []\<rparr>"] h1 h2
  show ?thesis by simp
qed








section \<open>The trace of a run\<close>

lemma line_trace:
  "\<exists>evs. trace (world_of (update_url_in_line fetch line project_path inc w)) = trace w @ evs \<and>
         (\<forall>ev \<in> set evs. event_file ev = None)"
proof (cases line rule: update_url_in_line_cases)
  case 1
  then show ?thesis by (simp add: update_url_in_line_skip)
next
  case (2 u s e)
  then show ?thesis by (simp add: update_url_in_line_skip)
next
  case (3 u s e name)
  from rewrite_trace [OF 3, of fetch project_path inc w] obtain evs where
    evs: "trace (world_of (update_url_in_line fetch line project_path inc w)) = trace w @ evs"
      "set evs \<subseteq> {MakeDir (project_path @ ''/public''), Download u,
                      SaveBytes ((project_path @ ''/public'') @ ''/'' @ name)}"
    by blast
  from evs(2) have "\<forall>ev \<in> set evs. event_file ev = None" by auto
  with evs(1) show ?thesis by blast
qed

lemma lines_trace:
  "\<exists>evs. trace (world_of (update_lines fetch lines project_path inc w)) = trace w @ evs \<and>
         (\<forall>ev \<in> set evs. event_file ev = None)"
proof (induction lines arbitrary: w)
  case Nil
  show ?case by simp
next
  case (Cons line lines)
  from line_trace [of fetch line project_path inc w] obtain evs1 where
    e1: "trace (world_of (update_url_in_line fetch line project_path inc w)) = trace w @ evs1"
      "\<forall>ev \<in> set evs1. event_file ev = None" by blast
  show ?case
  proof (cases "update_url_in_line fetch line project_path inc w")
    case (Raise err w1)
    with e1 show ?thesis by auto
  next
    case (Return l w1)
    from Cons.IH [of w1] obtain evs2 where
      e2: "trace (world_of (update_lines fetch lines project_path inc w1)) = trace w1 @ evs2"
        "\<forall>ev \<in> set evs2. event_file ev = None" by blast
    have w1: "trace w1 = trace w @ evs1" using e1(1) Return by simp
    have "trace (world_of (update_lines fetch (line # lines) project_path inc w)) =
          trace (world_of (update_lines fetch lines project_path inc w1))"
      using Return by (cases "update_lines fetch lines project_path inc w1") simp_all
    then have "trace (world_of (update_lines fetch (line # lines) project_path inc w)) =
          trace w @ (evs1 @ evs2)" using e2(1) w1 by simp
    moreover have "\<forall>ev \<in> set (evs1 @ evs2). event_file ev = None" using e1(2) e2(2) by auto
    ultimately show ?thesis by blast
  qed
qed

lemma file_trace:
  "\<exists>evs. trace (world_of (update_urls_in_file fetch file_path project_path inc w)) = trace w @ evs \<and>
         (\<forall>ev \<in> set evs. event_file ev = None \<or> event_file ev = Some file_path)"
proof (cases "readlines file_path w")
  case (Raise err w1)
  then have "trace w1 = trace w @ [OpenRead file_path]"
    by (auto simp: readlines_def log_def Let_def split: option.splits content.splits)
  moreover have "world_of (update_urls_in_file fetch file_path project_path inc w) = w1"
    using Raise by (simp add: update_urls_in_file_def)
  ultimately show ?thesis by simp
next
  case (Return old w1)
  then have w1: "trace w1 = trace w @ [OpenRead file_path]"
    by (auto simp: readlines_def log_def Let_def split: option.splits content.splits)
  from lines_trace [of fetch old project_path inc w1] obtain evs where
    evs: "trace (world_of (update_lines fetch old project_path inc w1)) = trace w1 @ evs"
      "\<forall>ev \<in> set evs. event_file ev = None" by blast
  show ?thesis
  proof (cases "update_lines fetch old project_path inc w1")
    case (Raise err w2)
    then have "world_of (update_urls_in_file fetch file_path project_path inc w) = w2"
      using Return by (simp add: update_urls_in_file_def)
    then have "trace (world_of (update_urls_in_file fetch file_path project_path inc w)) =
               trace w @ (OpenRead file_path # evs)"
      using evs(1) w1 Raise by simp
    moreover have "\<forall>ev \<in> set (OpenRead file_path # evs).
        event_file ev = None \<or> event_file ev = Some file_path" using evs(2) by simp
    ultimately show ?thesis by blast
  next
    case ret: (Return new w2)
    have w2: "trace w2 = trace w @ (OpenRead file_path # evs)" using evs(1) w1 ret by simp
    show ?thesis
    proof (cases "old = new")
      case True
      then have "world_of (update_urls_in_file fetch file_path project_path inc w) = w2"
        using Return ret by (simp add: update_urls_in_file_def)
      moreover have "\<forall>ev \<in> set (OpenRead file_path # evs).
        event_file ev = None \<or> event_file ev = Some file_path" using evs(2) by simp
      ultimately show ?thesis using w2 by blast
    next
      case False
      then have "trace (world_of (update_urls_in_file fetch file_path project_path inc w)) =
          trace w2 @ [Print (report file_path (card (set new - set old))),
                      WriteLines file_path new]"
        using Return ret
        by (simp add: update_urls_in_file_def Let_def writelines_def print_def log_def)
      then have "trace (world_of (update_urls_in_file fetch file_path project_path inc w)) =
          trace w @ (OpenRead file_path # evs @
             [Print (report file_path (card (set new - set old))), WriteLines file_path new])"
        using w2 by simp
      moreover have "\<forall>ev \<in> set (OpenRead file_path # evs @
             [Print (report file_path (card (set new - set old))), WriteLines file_path new]).
        event_file ev = None \<or> event_file ev = Some file_path" using evs(2) by simp
      ultimately show ?thesis by blast
    qed
  qed
qed

lemma files_trace:
  "\<exists>evs. trace (world_of (update_files fetch project_path root files w)) = trace w @ evs \<and>
         (\<forall>ev \<in> set evs. \<forall>p. event_file ev = Some p \<longrightarrow>
            True \<notin> (\<lambda>dir. contains p dir) ` ignored_dirs)"
proof (induction files arbitrary: w)
  case Nil
  show ?case by simp
next
  case (Cons name files)
  define file_path where "file_path = path_join root name"
  show ?case
  proof (cases "True \<in> (\<lambda>dir. contains file_path dir) ` ignored_dirs")
    case True
    then have "update_files fetch project_path root (name # files) w =
               update_files fetch project_path root files w"
      by (simp add: file_path_def Let_def)
    with Cons.IH [of w] show ?thesis by simp
  next
    case False
    define r where "r = update_urls_in_file fetch file_path project_path (endswith file_path ''.md'') w"
    from file_trace [of fetch file_path project_path "endswith file_path ''.md''" w]
    obtain evs1 where e1: "trace (world_of r) = trace w @ evs1"
      "\<forall>ev \<in> set evs1. event_file ev = None \<or> event_file ev = Some file_path"
      unfolding r_def by blast
    have ok1: "\<forall>ev \<in> set evs1. \<forall>p. event_file ev = Some p \<longrightarrow>
            True \<notin> (\<lambda>dir. contains p dir) ` ignored_dirs"
      using e1(2) False by auto
    have u: "update_files fetch project_path root (name # files) w =
        (case r of Raise err w1 \<Rightarrow> Raise err w1
         | Return u w1 \<Rightarrow> update_files fetch project_path root files w1)"
      using False by (simp add: file_path_def r_def Let_def)
    show ?thesis
    proof (cases r)
      case (Raise err w1)
      with u e1(1) ok1 show ?thesis by auto
    next
      case (Return x w1)
      from Cons.IH [of w1] obtain evs2 where
        e2: "trace (world_of (update_files fetch project_path root files w1)) = trace w1 @ evs2"
          "\<forall>ev \<in> set evs2. \<forall>p. event_file ev = Some p \<longrightarrow>
            True \<notin> (\<lambda>dir. contains p dir) ` ignored_dirs" by blast
      have "trace (world_of (update_files fetch project_path root (name # files) w)) =
            trace w @ (evs1 @ evs2)"
        using u Return e1(1) e2(1) by simp
      moreover have "\<forall>ev \<in> set (evs1 @ evs2). \<forall>p. event_file ev = Some p \<longrightarrow>
            True \<notin> (\<lambda>dir. contains p dir) ` ignored_dirs"
        using ok1 e2(2) by auto
      ultimately show ?thesis by blast
    qed
  qed
qed

lemma project_trace:
  "\<exists>evs. trace (world_of (update_urls_in_project fetch walk project_path w)) = trace w @ evs \<and>
         (\<forall>ev \<in> set evs. \<forall>p. event_file ev = Some p \<longrightarrow>
            True \<notin> (\<lambda>dir. contains p dir) ` ignored_dirs)"
proof (induction walk arbitrary: w)
  case Nil
  show ?case by simp
next
  case (Cons entry walk)
  obtain root dirs files where entry: "entry = (root, dirs, files)" by (cases entry) auto
  define r where "r = update_files fetch project_path root files w"
  from files_trace [of fetch project_path root files w]
  obtain evs1 where e1: "trace (world_of r) = trace w @ evs1"
    "\<forall>ev \<in> set evs1. \<forall>p. event_file ev = Some p \<longrightarrow>
            True \<notin> (\<lambda>dir. contains p dir) ` ignored_dirs"
    unfolding r_def by blast
  show ?case
  proof (cases r)
    case (Raise err w1)
    then have "world_of (update_urls_in_project fetch (entry # walk) project_path w) = w1"
      by (simp add: entry r_def [symmetric])
    with Raise e1 show ?thesis by auto
  next
    case (Return x w1)
    from Cons.IH [of w1] obtain evs2 where
      e2: "trace (world_of (update_urls_in_project fetch walk project_path w1)) = trace w1 @ evs2"
        "\<forall>ev \<in> set evs2. \<forall>p. event_file ev = Some p \<longrightarrow>
            True \<notin> (\<lambda>dir. contains p dir) ` ignored_dirs" by blast
    have "trace (world_of (update_urls_in_project fetch (entry # walk) project_path w)) =
          trace w @ (evs1 @ evs2)"
      using Return e1(1) e2(1) by (simp add: entry r_def [symmetric])
    moreover have "\<forall>ev \<in> set (evs1 @ evs2). \<forall>p. event_file ev = Some p \<longrightarrow>
            True \<notin> (\<lambda>dir. contains p dir) ` ignored_dirs"
      using e1(2) e2(2) by auto
    ultimately show ?thesis by blast
  qed
qed

section \<open>Claim about the tree walker\<close>

text \<open>
  Claim C7. Whatever files the walk yields, a file whose full path contains \<open>.git\<close>,
  \<open>node_modules\<close> or \<open>__pycache__\<close> anywhere is not handed to the file processor: among
  the events that a run of the tree walker adds to the trace, none opens that path for
  reading and none writes lines to it, also when the run ends in an exception.
\<close>

theorem excluded_file_untouched:
  assumes "True \<in> (\<lambda>dir. contains file_path dir) ` ignored_dirs"
    and "trace (world_of (update_urls_in_project fetch walk project_path w)) = trace w @ evs"
  shows "OpenRead file_path \<notin> set evs \<and> WriteLines file_path ls \<notin> set evs"
proof -
  from project_trace [of fetch walk project_path w] assms(2)
  have ok: "\<forall>ev \<in> set evs. \<forall>p. event_file ev = Some p \<longrightarrow>
            True \<notin> (\<lambda>dir. contains p dir) ` ignored_dirs"
    by auto
  have "OpenRead file_path \<notin> set evs"
  proof
    assume "OpenRead file_path \<in> set evs"
    with ok have "True \<notin> (\<lambda>dir. contains file_path dir) ` ignored_dirs"
      using event_file.simps(1) by blast
    with assms(1) show False by simp
  qed
  moreover have "WriteLines file_path ls \<notin> set evs"
  proof
    assume "WriteLines file_path ls \<in> set evs"
    with ok have "True \<notin> (\<lambda>dir. contains file_path dir) ` ignored_dirs"
      using event_file.simps(2) by blast
    with assms(1) show False by simp
  qed
  ultimately show ?thesis by simp
qed

theorem excluded_file_untouched_witness:
  "True \<in> (\<lambda>dir. contains ''proj/.git/config'' dir) ` ignored_dirs \<and>
   trace (world_of (update_urls_in_project (\<lambda>u. Some (Binary u))
     [(''proj'', [''.git''], [''a.txt'']), (''proj/.git'', [], [''config''])] ''proj''
     \<lparr>fs_files = [''proj/a.txt'' \<mapsto> Text [''(https://cdn.discordapp.com/x/logo.png)''],
        ''proj/.git/config'' \<mapsto> Text [''(https://cdn.discordapp.com/x/logo.png)'']],
      fs_dirs = {''proj'', ''proj/.git''}, trace = []\<rparr>)) =
     [OpenRead ''proj/a.txt'', MakeDir ''proj/public'',
      Download ''https://cdn.discordapp.com/x/logo.png'', SaveBytes ''proj/public/logo.png'',
      Print (report ''proj/a.txt'' 1), WriteLines ''proj/a.txt'' [''(/logo.png)'']] \<and>
   OpenRead ''proj/.git/config'' \<notin> set [OpenRead ''proj/a.txt'', MakeDir ''proj/public'',
      Download ''https://cdn.discordapp.com/x/logo.png'', SaveBytes ''proj/public/logo.png'',
      Print (report ''proj/a.txt'' 1), WriteLines ''proj/a.txt'' [''(/logo.png)'']] \<and>
   WriteLines ''proj/.git/config'' [''(/logo.png)''] \<notin> set [OpenRead ''proj/a.txt'', MakeDir ''proj/public'',
      Download ''https://cdn.discordapp.com/x/logo.png'', SaveBytes ''proj/public/logo.png'',
      Print (report ''proj/a.txt'' 1), WriteLines ''proj/a.txt'' [''(/logo.png)'']]"
proof -
  have h1: "True \<in> (\<lambda>dir. contains ''proj/.git/config'' dir) ` ignored_dirs"
    by code_simp
  have h2: "trace (world_of (update_urls_in_project (\<lambda>u. Some (Binary u))
     [(''proj'', [''.git''], [''a.txt'']), (''proj/.git'', [], [''config''])] ''proj''
     \<lparr>fs_files = [''proj/a.txt'' \<mapsto> Text [''(https://cdn.discordapp.com/x/logo.png)''],
        ''proj/.git/config'' \<mapsto> Text [''(https://cdn.discordapp.com/x/logo.png)'']],
      fs_dirs = {''proj'', ''proj/.git''}, trace = []\<rparr>)) =
     trace \<lparr>fs_files = [''proj/a.txt'' \<mapsto> Text [''(https://cdn.discordapp.com/x/logo.png)''],
        ''proj/.git/config'' \<mapsto> Text [''(https://cdn.discordapp.com/x/logo.png)'']],
      fs_dirs = {''proj'', ''proj/.git''}, trace = []\<rparr> @
     [OpenRead ''proj/a.txt'', MakeDir ''proj/public'',
      Download ''https://cdn.discordapp.com/x/logo.png'', SaveBytes ''proj/public/logo.png'',
      Print (report ''proj/a.txt'' 1), WriteLines ''proj/a.txt'' [''(/logo.png)'']]"
    by code_simp
  from excluded_file_untouched [OF h1 h2, of "[''(/logo.png)'']"] h1 h2
  show ?thesis by simp
qed

section \<open>Claim about the reported count\<close>


text \<open>
  Claim C4 at a file that the code can receive. Its two lines are a link to the remote
  asset and a link to the local copy; the first line is rewritten and becomes equal to the
  second. The file processor writes the file back, so the file changed, and one line
  changed; the count it reports is \<open>0\<close>, since the new line is among the old lines and
  the code counts \<open>set(lines) - set(old_lines)\<close>. The comment in the code says that the
  number of differences made is printed.
\<close>

theorem reported_count_misses_change:
  "trace (world_of (update_urls_in_file (\<lambda>u. Some (Binary u)) ''proj/a.txt'' ''proj'' False
     \<lparr>fs_files = [''proj/a.txt'' \<mapsto> Text [''(https://cdn.discordapp.com/x/logo.png)'', ''(/logo.png)'']],
      fs_dirs = {''proj''}, trace = []\<rparr>)) =
     [OpenRead ''proj/a.txt'', MakeDir ''proj/public'',
      Download ''https://cdn.discordapp.com/x/logo.png'', SaveBytes ''proj/public/logo.png'',
      Print (report ''proj/a.txt'' 0), WriteLines ''proj/a.txt'' [''(/logo.png)'', ''(/logo.png)'']] \<and>
   card (changed_lines [''(https://cdn.discordapp.com/x/logo.png)'', ''(/logo.png)'']
           [''(/logo.png)'', ''(/logo.png)'']) = 1 \<and>
   report ''proj/a.txt'' 0 \<noteq> report ''proj/a.txt'' 1"
  by code_simp

section \<open>Occurrences of the origin prefix in a rewritten line\<close>





















section \<open>Processing a line or a file twice\<close>













section \<open>Claim about the rewritten line and the flag of the file\<close>





end
